theory Spec2Isabelle
  imports Main "HOL-Library.Word"
begin

unbundle bit_operations_syntax

section \<open>The PIO state machine\<close>

text \<open>
  The program \<^verbatim>\<open>QEI_prog\<close> of \<^verbatim>\<open>src/pio/pio_qei.py\<close> is microcode for one state
  machine of the RP2040's PIO block. The state of such a machine, as far as this program
  touches it: the 5-bit program counter, the scratch registers X and Y, the input and
  output shift registers ISR and OSR (all 32 bits wide), and the two hardware FIFOs
  (TX: host to machine, RX: machine to host), each four words deep since the program is
  assembled without a FIFO join. Autopush and autopull are off (the decorator sets only
  \<^verbatim>\<open>in_shiftdir\<close>), so the shift counters never influence the program and are left out.
\<close>

record sm =
  pc :: nat
  scratch_x :: "32 word"
  scratch_y :: "32 word"
  isr :: "32 word"
  osr :: "32 word"
  tx_fifo :: "32 word list"
  rx_fifo :: "32 word list"

text \<open>The instructions the program uses, named as the \<^verbatim>\<open>rp2.asm_pio\<close> assembler names them.\<close>

datatype cond = always | not_x | x_dec | y_dec

datatype source = PINS | X | Y | NULL | ISR | OSR

datatype dest = to_pc | to_x | to_y | to_isr | to_osr

datatype mov_op = plain | invert

datatype instr =
    Jmp cond nat
  | SetX "32 word"
  | PullNoblock
  | Push
  | Mov dest mov_op source
  | In source nat
  | Nop

text \<open>Labels of the program: the address of the instruction that follows each label.\<close>

definition decrement :: nat where "decrement = 14"
definition update :: nat where "update = 15"
definition sample_pins :: nat where "sample_pins = 22"
definition increment :: nat where "increment = 26"
definition increment_cont :: nat where "increment_cont = 28"

text \<open>\<^verbatim>\<open>wrap_target()\<close> stands before address 15, \<^verbatim>\<open>wrap()\<close> after address 28.\<close>

definition wrap_target :: nat where "wrap_target = 15"
definition wrap :: nat where "wrap = 28"

text \<open>
  The 32 instructions, in the order of the source. With the three trailing \<^verbatim>\<open>nop()\<close> the
  program fills the whole instruction memory, so it is loaded at address 0 and the
  4-bit key computed by the sampling code is the address of its action.
\<close>

definition QEI_prog :: "instr list" where
  "QEI_prog =
    [ Jmp always update,
      Jmp always decrement,
      Jmp always increment,
      Jmp always update,

      Jmp always increment,
      Jmp always update,
      Jmp always update,
      Jmp always decrement,

      Jmp always decrement,
      Jmp always update,
      Jmp always update,
      Jmp always increment,

      Jmp always update,
      Jmp always increment,
      Jmp y_dec update,

      SetX 0,
      PullNoblock,
      Mov to_x plain OSR,
      Mov to_osr plain ISR,
      Jmp not_x sample_pins,
      Mov to_isr plain Y,
      Push,

      Mov to_isr plain NULL,
      In OSR 2,
      In PINS 2,
      Mov to_pc plain ISR,

      Mov to_x invert Y,
      Jmp x_dec increment_cont,
      Mov to_y invert X,

      Nop,
      Nop,
      Nop ]"

subsection \<open>Execution of one instruction\<close>

text \<open>
  After an instruction that does not jump, the program counter wraps from \<open>wrap\<close> to
  \<open>wrap_target\<close> and otherwise counts up modulo the 32 words of instruction memory.
\<close>

definition advance :: "sm \<Rightarrow> sm" where
  "advance s = s\<lparr>pc := (if pc s = wrap then wrap_target else (pc s + 1) mod 32)\<rparr>"

fun source_val :: "source \<Rightarrow> 32 word \<Rightarrow> sm \<Rightarrow> 32 word" where
  "source_val PINS p s = p"
| "source_val X p s = scratch_x s"
| "source_val Y p s = scratch_y s"
| "source_val NULL p s = 0"
| "source_val ISR p s = isr s"
| "source_val OSR p s = osr s"

fun apply_op :: "mov_op \<Rightarrow> 32 word \<Rightarrow> 32 word" where
  "apply_op plain v = v"
| "apply_op invert v = NOT v"

text \<open>
  \<open>exec i p s\<close> is the state after instruction \<open>i\<close>, executed in state \<open>s\<close> while the input
  pins (seen from \<^verbatim>\<open>in_base\<close>) read \<open>p\<close>.
  \<^item> \<^verbatim>\<open>jmp(x_dec, a)\<close> and \<^verbatim>\<open>jmp(y_dec, a)\<close> branch when the register is nonzero before the
    decrement and decrement it in either case.
  \<^item> \<^verbatim>\<open>pull(noblock)\<close> on an empty TX FIFO copies X into OSR.
  \<^item> \<^verbatim>\<open>push()\<close> is the blocking push: with a full RX FIFO the machine stalls on the
    instruction, so the state does not change; otherwise ISR is appended and cleared.
  \<^item> \<^verbatim>\<open>in_(src, n)\<close> with \<^verbatim>\<open>in_shiftdir=PIO.SHIFT_LEFT\<close> shifts ISR left by \<open>n\<close> and puts the \<open>n\<close>
    low bits of the source at the bottom.
  \<^item> \<^verbatim>\<open>mov(pc, src)\<close> is a jump to the low five bits of the source.
\<close>

fun exec :: "instr \<Rightarrow> 32 word \<Rightarrow> sm \<Rightarrow> sm" where
  "exec (Jmp always a) p s = s\<lparr>pc := a\<rparr>"
| "exec (Jmp not_x a) p s = (if scratch_x s = 0 then s\<lparr>pc := a\<rparr> else advance s)"
| "exec (Jmp x_dec a) p s =
     (if scratch_x s \<noteq> 0 then s\<lparr>scratch_x := scratch_x s - 1, pc := a\<rparr>
      else advance (s\<lparr>scratch_x := scratch_x s - 1\<rparr>))"
| "exec (Jmp y_dec a) p s =
     (if scratch_y s \<noteq> 0 then s\<lparr>scratch_y := scratch_y s - 1, pc := a\<rparr>
      else advance (s\<lparr>scratch_y := scratch_y s - 1\<rparr>))"
| "exec (SetX v) p s = advance (s\<lparr>scratch_x := v\<rparr>)"
| "exec PullNoblock p s =
     (case tx_fifo s of
        [] \<Rightarrow> advance (s\<lparr>osr := scratch_x s\<rparr>)
      | v # r \<Rightarrow> advance (s\<lparr>osr := v, tx_fifo := r\<rparr>))"
| "exec Push p s =
     (if length (rx_fifo s) < 4
      then advance (s\<lparr>rx_fifo := rx_fifo s @ [isr s], isr := 0\<rparr>)
      else s)"
| "exec (Mov d f src) p s =
     (let v = apply_op f (source_val src p s) in
      case d of
        to_pc \<Rightarrow> s\<lparr>pc := unat (take_bit 5 v)\<rparr>
      | to_x \<Rightarrow> advance (s\<lparr>scratch_x := v\<rparr>)
      | to_y \<Rightarrow> advance (s\<lparr>scratch_y := v\<rparr>)
      | to_isr \<Rightarrow> advance (s\<lparr>isr := v\<rparr>)
      | to_osr \<Rightarrow> advance (s\<lparr>osr := v\<rparr>))"
| "exec (In src n) p s =
     advance (s\<lparr>isr := push_bit n (isr s) OR take_bit n (source_val src p s)\<rparr>)"
| "exec Nop p s = advance s"

text \<open>One clock cycle: fetch at the program counter and execute.\<close>

definition step :: "32 word \<Rightarrow> sm \<Rightarrow> sm" where
  "step p s = exec (QEI_prog ! (pc s mod 32)) p s"

subsection \<open>Running the machine\<close>

text \<open>
  \<open>cycles ps s\<close> runs one clock cycle per element of \<open>ps\<close>, the pin levels at that cycle.
\<close>

fun cycles :: "32 word list \<Rightarrow> sm \<Rightarrow> sm" where
  "cycles [] s = s"
| "cycles (p # ps) s = cycles ps (step p s)"

text \<open>
  \<open>run_to target n p s\<close> runs the machine, the pins held at \<open>p\<close>, until the program counter
  next arrives at \<open>target\<close>, for at most \<open>n\<close> cycles. \<open>None\<close>: the machine has not arrived
  within \<open>n\<close> cycles. The only instruction that reads the pins is \<^verbatim>\<open>in_(pins, 2)\<close>, once per
  pass of the loop, so \<open>p\<close> is the sample of that pass.
\<close>

fun run_to :: "nat \<Rightarrow> nat \<Rightarrow> 32 word \<Rightarrow> sm \<Rightarrow> sm option" where
  "run_to target 0 p s = None"
| "run_to target (Suc n) p s =
     (let s' = step p s in if pc s' = target then Some s' else run_to target n p s')"

text \<open>
  One pass of the main loop as the source delimits it (\<^verbatim>\<open>wrap_target()\<close> at \<open>update\<close>): check
  the TX FIFO, push the count when asked, sample the pins, jump into the table, act. The
  longest pass takes 15 cycles.
\<close>

definition loop_pass :: "32 word \<Rightarrow> sm \<Rightarrow> sm option" where
  "loop_pass p s = run_to update 16 p s"

text \<open>Replaying a sequence of samples: one pass of the loop per sample.\<close>

fun replay :: "32 word list \<Rightarrow> sm \<Rightarrow> sm option" where
  "replay [] s = Some s"
| "replay (p # ps) s = (case loop_pass p s of None \<Rightarrow> None | Some s' \<Rightarrow> replay ps s')"

text \<open>A nonzero word at the head of the TX FIFO is a request for the count.\<close>

definition request_pending :: "sm \<Rightarrow> bool" where
  "request_pending s = (case tx_fifo s of [] \<Rightarrow> False | v # r \<Rightarrow> v \<noteq> 0)"

section \<open>The host side\<close>

text \<open>
  \<^verbatim>\<open>PIOQEI.__init__\<close> creates the state machine and activates it. Initialising a state
  machine clears its FIFOs and its ISR and sets the program counter to the first
  instruction of the program, address 0. The scratch registers and OSR hold 0 after
  reset; the theorems below do not depend on X and OSR.
\<close>

definition PIOQEI_init :: sm where
  "PIOQEI_init = \<lparr>pc = 0, scratch_x = 0, scratch_y = 0, isr = 0, osr = 0,
                   tx_fifo = [], rx_fifo = []\<rparr>"

text \<open>The first sampling iteration: the jump at address 0, then the first pass of the loop.\<close>

definition first_iteration :: "32 word \<Rightarrow> sm \<Rightarrow> sm option" where
  "first_iteration p s = loop_pass p (step p s)"

text \<open>
  \<^verbatim>\<open>StateMachine.put\<close> and \<^verbatim>\<open>StateMachine.get\<close> block: \<^verbatim>\<open>put\<close> waits while the TX FIFO is full,
  \<^verbatim>\<open>get\<close> waits while the RX FIFO is empty. While the host waits the state machine runs;
  the list argument gives the pin levels of the cycles that pass, and what is left of it
  is returned. \<open>None\<close>: the call has not returned within these cycles.
\<close>

fun sm_put :: "32 word \<Rightarrow> 32 word list \<Rightarrow> sm \<Rightarrow> (32 word list \<times> sm) option" where
  "sm_put v [] s =
     (if length (tx_fifo s) < 4 then Some ([], s\<lparr>tx_fifo := tx_fifo s @ [v]\<rparr>) else None)"
| "sm_put v (p # ps) s =
     (if length (tx_fifo s) < 4 then Some (p # ps, s\<lparr>tx_fifo := tx_fifo s @ [v]\<rparr>)
      else sm_put v ps (step p s))"

fun sm_get :: "32 word list \<Rightarrow> sm \<Rightarrow> (32 word \<times> 32 word list \<times> sm) option" where
  "sm_get [] s =
     (case rx_fifo s of [] \<Rightarrow> None | v # r \<Rightarrow> Some (v, [], s\<lparr>rx_fifo := r\<rparr>))"
| "sm_get (p # ps) s =
     (case rx_fifo s of
        [] \<Rightarrow> sm_get ps (step p s)
      | v # r \<Rightarrow> Some (v, p # ps, s\<lparr>rx_fifo := r\<rparr>))"

text \<open>\<^verbatim>\<open>PIOQEI.get\<close>: \<^verbatim>\<open>self.sm.put(1)\<close>, then \<^verbatim>\<open>return self.sm.get()\<close>.\<close>

definition PIOQEI_get :: "32 word list \<Rightarrow> sm \<Rightarrow> (32 word \<times> 32 word list \<times> sm) option" where
  "PIOQEI_get ps s =
     (case sm_put 1 ps s of None \<Rightarrow> None | Some (ps', s') \<Rightarrow> sm_get ps' s')"





section \<open>The transition table of the specification\<close>

text \<open>
  The table as the specification prints it: rows are the previous 2-bit state, columns
  the new one. Every pair that is neither a Decrement nor an Increment entry is NoOp.
\<close>

datatype action = NoOp | Increment | Decrement

definition TransitionTable :: "nat \<Rightarrow> nat \<Rightarrow> action" where
  "TransitionTable prev new =
     (if (prev, new) \<in> {(0, 1), (1, 3), (2, 0), (3, 2)} then Decrement
      else if (prev, new) \<in> {(0, 2), (1, 0), (2, 3), (3, 1)} then Increment
      else NoOp)"

text \<open>The Counter is a 32-bit integer; \<open>sint\<close> reads it as signed.\<close>

fun apply_action :: "action \<Rightarrow> 32 word \<Rightarrow> 32 word" where
  "apply_action NoOp c = c"
| "apply_action Increment c = c + 1"
| "apply_action Decrement c = c - 1"

text \<open>The PinState held in a register or read from the pins: its two low bits.\<close>

definition pin_state :: "32 word \<Rightarrow> nat" where
  "pin_state w = unat (take_bit 2 w)"

text \<open>
  The direct simulation against the table: for each sample, look up the action for
  (previous, current), apply it to the Counter, and make the sample the previous state.
\<close>

fun table_simulation :: "nat \<Rightarrow> nat list \<Rightarrow> 32 word \<Rightarrow> 32 word" where
  "table_simulation prev [] c = c"
| "table_simulation prev (new # rest) c =
     table_simulation new rest (apply_action (TransitionTable prev new) c)"

section \<open>The two halves of the loop in closed form\<close>

text \<open>
  \<open>serviced s\<close> is the state in which the machine arrives at \<open>sample_pins\<close> when it leaves
  \<open>update\<close> in state \<open>s\<close>; \<open>sampled p s\<close> is the state in which it arrives at \<open>update\<close> when it
  leaves \<open>sample_pins\<close> in state \<open>s\<close> with the pins at \<open>p\<close>. Both are proved below to be what
  the program computes (\<open>loop_pass_closed\<close>).
\<close>

definition serviced :: "sm \<Rightarrow> sm" where
  "serviced s =
     (case tx_fifo s of
        [] \<Rightarrow> s\<lparr>scratch_x := 0, osr := isr s, pc := sample_pins\<rparr>
      | v # r \<Rightarrow>
          if v = 0 then s\<lparr>scratch_x := 0, osr := isr s, tx_fifo := r, pc := sample_pins\<rparr>
          else s\<lparr>scratch_x := v, osr := isr s, isr := 0, tx_fifo := r,
                 rx_fifo := rx_fifo s @ [scratch_y s], pc := sample_pins\<rparr>)"

definition sampled :: "32 word \<Rightarrow> sm \<Rightarrow> sm" where
  "sampled p s =
     (let a = TransitionTable (pin_state (osr s)) (pin_state p) in
      s\<lparr>scratch_x := (if a = Increment then NOT (scratch_y s) - 1 else scratch_x s),
        scratch_y := apply_action a (scratch_y s),
        isr := of_nat (4 * pin_state (osr s) + pin_state p),
        pc := update\<rparr>)"

text \<open>
  The states in which the machine idles: nothing in the RX FIFO, nothing but zero words
  in the TX FIFO, and the program counter anywhere in the entry jump, the table or the
  loop outside the two instructions that push, the registers being as the zero-word
  path through the loop leaves them. Proved below to be closed under \<open>step\<close>.
\<close>

definition idle :: "sm \<Rightarrow> bool" where
  "idle s \<longleftrightarrow>
     rx_fifo s = [] \<and> set (tx_fifo s) \<subseteq> {0} \<and>
     (pc s < 16
      \<or> pc s = 16 \<and> scratch_x s = 0
      \<or> pc s = 17 \<and> osr s = 0
      \<or> pc s = 18 \<and> scratch_x s = 0
      \<or> pc s = 19 \<and> scratch_x s = 0
      \<or> pc s = 22
      \<or> pc s = 23 \<and> isr s = 0
      \<or> pc s = 24 \<and> take_bit 2 (isr s) = isr s
      \<or> pc s = 25 \<and> unat (isr s) < 16
      \<or> pc s = 26 \<or> pc s = 27 \<or> pc s = 28)"




section \<open>Symbolic execution of the program\<close>

lemma fetch:
  "QEI_prog ! 0 = Jmp always update" "QEI_prog ! 1 = Jmp always decrement"
  "QEI_prog ! 2 = Jmp always increment" "QEI_prog ! 3 = Jmp always update"
  "QEI_prog ! 4 = Jmp always increment" "QEI_prog ! 5 = Jmp always update"
  "QEI_prog ! 6 = Jmp always update" "QEI_prog ! 7 = Jmp always decrement"
  "QEI_prog ! 8 = Jmp always decrement" "QEI_prog ! 9 = Jmp always update"
  "QEI_prog ! 10 = Jmp always update" "QEI_prog ! 11 = Jmp always increment"
  "QEI_prog ! 12 = Jmp always update" "QEI_prog ! 13 = Jmp always increment"
  "QEI_prog ! 14 = Jmp y_dec update" "QEI_prog ! 15 = SetX 0"
  "QEI_prog ! 16 = PullNoblock" "QEI_prog ! 17 = Mov to_x plain OSR"
  "QEI_prog ! 18 = Mov to_osr plain ISR" "QEI_prog ! 19 = Jmp not_x sample_pins"
  "QEI_prog ! 20 = Mov to_isr plain Y" "QEI_prog ! 21 = Push"
  "QEI_prog ! 22 = Mov to_isr plain NULL" "QEI_prog ! 23 = In OSR 2"
  "QEI_prog ! 24 = In PINS 2" "QEI_prog ! 25 = Mov to_pc plain ISR"
  "QEI_prog ! 26 = Mov to_x invert Y" "QEI_prog ! 27 = Jmp x_dec increment_cont"
  "QEI_prog ! 28 = Mov to_y invert X" "QEI_prog ! Suc 0 = Jmp always decrement"
  by (simp_all add: QEI_prog_def)

lemmas labels = update_def decrement_def increment_def increment_cont_def sample_pins_def
  wrap_def wrap_target_def

lemma step_jump:
  "pc s = 0 \<Longrightarrow> step p s = s\<lparr>pc := 15\<rparr>"
  "pc s = 1 \<Longrightarrow> step p s = s\<lparr>pc := 14\<rparr>"
  "pc s = 2 \<Longrightarrow> step p s = s\<lparr>pc := 26\<rparr>"
  "pc s = 3 \<Longrightarrow> step p s = s\<lparr>pc := 15\<rparr>"
  "pc s = 4 \<Longrightarrow> step p s = s\<lparr>pc := 26\<rparr>"
  "pc s = 5 \<Longrightarrow> step p s = s\<lparr>pc := 15\<rparr>"
  "pc s = 6 \<Longrightarrow> step p s = s\<lparr>pc := 15\<rparr>"
  "pc s = 7 \<Longrightarrow> step p s = s\<lparr>pc := 14\<rparr>"
  "pc s = 8 \<Longrightarrow> step p s = s\<lparr>pc := 14\<rparr>"
  "pc s = 9 \<Longrightarrow> step p s = s\<lparr>pc := 15\<rparr>"
  "pc s = 10 \<Longrightarrow> step p s = s\<lparr>pc := 15\<rparr>"
  "pc s = 11 \<Longrightarrow> step p s = s\<lparr>pc := 26\<rparr>"
  "pc s = 12 \<Longrightarrow> step p s = s\<lparr>pc := 15\<rparr>"
  "pc s = 13 \<Longrightarrow> step p s = s\<lparr>pc := 26\<rparr>"
  by (simp_all add: step_def fetch labels)

lemma step_action:
  "pc s = 14 \<Longrightarrow> step p s = s\<lparr>scratch_y := scratch_y s - 1, pc := 15\<rparr>"
  "pc s = 26 \<Longrightarrow> step p s = s\<lparr>scratch_x := NOT (scratch_y s), pc := 27\<rparr>"
  "pc s = 27 \<Longrightarrow> step p s = s\<lparr>scratch_x := scratch_x s - 1, pc := 28\<rparr>"
  "pc s = 28 \<Longrightarrow> step p s = s\<lparr>scratch_y := NOT (scratch_x s), pc := 15\<rparr>"
  by (simp_all add: step_def fetch labels advance_def)

lemma step_service:
  "pc s = 15 \<Longrightarrow> step p s = s\<lparr>scratch_x := 0, pc := 16\<rparr>"
  "pc s = 16 \<Longrightarrow> tx_fifo s = [] \<Longrightarrow> step p s = s\<lparr>osr := scratch_x s, pc := 17\<rparr>"
  "pc s = 16 \<Longrightarrow> tx_fifo s = v # r \<Longrightarrow> step p s = s\<lparr>osr := v, tx_fifo := r, pc := 17\<rparr>"
  "pc s = 17 \<Longrightarrow> step p s = s\<lparr>scratch_x := osr s, pc := 18\<rparr>"
  "pc s = 18 \<Longrightarrow> step p s = s\<lparr>osr := isr s, pc := 19\<rparr>"
  "pc s = 19 \<Longrightarrow> scratch_x s = 0 \<Longrightarrow> step p s = s\<lparr>pc := 22\<rparr>"
  "pc s = 19 \<Longrightarrow> scratch_x s \<noteq> 0 \<Longrightarrow> step p s = s\<lparr>pc := 20\<rparr>"
  "pc s = 20 \<Longrightarrow> step p s = s\<lparr>isr := scratch_y s, pc := 21\<rparr>"
  "pc s = 21 \<Longrightarrow> length (rx_fifo s) < 4 \<Longrightarrow>
     step p s = s\<lparr>rx_fifo := rx_fifo s @ [isr s], isr := 0, pc := 22\<rparr>"
  "pc s = 21 \<Longrightarrow> \<not> length (rx_fifo s) < 4 \<Longrightarrow> step p s = s"
  by (simp_all add: step_def fetch labels advance_def)

lemma step_sample:
  "pc s = 22 \<Longrightarrow> step p s = s\<lparr>isr := 0, pc := 23\<rparr>"
  "pc s = 23 \<Longrightarrow> step p s = s\<lparr>isr := push_bit 2 (isr s) OR take_bit 2 (osr s), pc := 24\<rparr>"
  "pc s = 24 \<Longrightarrow> step p s = s\<lparr>isr := push_bit 2 (isr s) OR take_bit 2 p, pc := 25\<rparr>"
  "pc s = 25 \<Longrightarrow> step p s = s\<lparr>pc := unat (take_bit 5 (isr s))\<rparr>"
  by (simp_all add: step_def fetch labels advance_def)

lemmas step_simps = step_jump step_action step_service step_sample

lemma pin_state_lt: "pin_state w < 4"
proof -
  have "unat (take_bit 2 w) = take_bit 2 (unat w)" by (rule unsigned_take_bit_eq)
  also have "\<dots> < 2 ^ 2" by (rule take_bit_nat_less_exp)
  finally show ?thesis by (simp add: pin_state_def)
qed

lemma take_bit_pin: "take_bit 2 w = of_nat (pin_state w)"
  by (simp add: pin_state_def)

lemma lt4_cases: "(a::nat) < 4 \<Longrightarrow> a = 0 \<or> a = 1 \<or> a = 2 \<or> a = 3"
  by arith

lemma run_to_numeral:
  "run_to t (numeral n) p s =
     (let s' = step p s in if pc s' = t then Some s' else run_to t (pred_numeral n) p s')"
  by (simp add: numeral_eq_Suc)

lemma run_to_mono:
  "run_to t n p s = Some r \<Longrightarrow> n \<le> m \<Longrightarrow> run_to t m p s = Some r"
proof (induction n arbitrary: m s)
  case 0
  then show ?case by simp
next
  case (Suc n)
  then obtain m' where m: "m = Suc m'" and le: "n \<le> m'"
    by (cases m) auto
  show ?case
  proof (cases "pc (step p s) = t")
    case True
    with Suc.prems(1) show ?thesis by (simp add: m)
  next
    case False
    with Suc.prems(1) have "run_to t n p (step p s) = Some r" by simp
    from Suc.IH[OF this le] False show ?thesis by (simp add: m)
  qed
qed


lemma loop_pass_closed:
  assumes "pc s = update" "request_pending s \<longrightarrow> length (rx_fifo s) < 4"
  shows "loop_pass p s = Some (sampled p (serviced s))"
proof -
  define a where "a = pin_state (isr s)"
  define b where "b = pin_state p"
  have ab: "a < 4" "b < 4" using pin_state_lt by (auto simp: a_def b_def)
  have tb: "take_bit 2 (isr s) = of_nat a" "take_bit 2 p = of_nat b"
    by (simp_all add: take_bit_pin a_def b_def)
  have ps: "pin_state (isr s) = a" "pin_state p = b" by (simp_all add: a_def b_def)
  have pc: "pc s = 15" using assms(1) by (simp add: update_def)
  show ?thesis
  proof (cases "tx_fifo s")
    case Nil
    show ?thesis
      using lt4_cases[OF ab(1)] lt4_cases[OF ab(2)] pc Nil
      unfolding loop_pass_def sampled_def serviced_def Let_def update_def sample_pins_def
      apply (elim disjE)
                     apply (simp_all add: run_to_numeral step_simps tb ps TransitionTable_def not_eq_complement)
      done
  next
    case (Cons v r)
    show ?thesis
    proof (cases "v = 0")
      case True
      show ?thesis
        using lt4_cases[OF ab(1)] lt4_cases[OF ab(2)] pc Cons True
        unfolding loop_pass_def sampled_def serviced_def Let_def update_def sample_pins_def
        apply (elim disjE)
                       apply (simp_all add: run_to_numeral step_simps tb ps TransitionTable_def not_eq_complement)
        done
    next
      case False
      with Cons assms(2) have rx: "length (rx_fifo s) < 4" by (simp add: request_pending_def)
      show ?thesis
        using lt4_cases[OF ab(1)] lt4_cases[OF ab(2)] pc Cons False rx
        unfolding loop_pass_def sampled_def serviced_def Let_def update_def sample_pins_def
        apply (elim disjE)
                       apply (simp_all add: run_to_numeral step_simps tb ps TransitionTable_def not_eq_complement)
        done
    qed
  qed
qed

lemma pin_state_key: "a < 4 \<Longrightarrow> b < 4 \<Longrightarrow> pin_state (of_nat (4 * a + b)) = b"
  by (drule lt4_cases, drule lt4_cases) (auto simp: pin_state_def)

lemma sampled_fields:
  "pc (sampled p s) = update"
  "scratch_y (sampled p s) =
     apply_action (TransitionTable (pin_state (osr s)) (pin_state p)) (scratch_y s)"
  "pin_state (isr (sampled p s)) = pin_state p"
  "osr (sampled p s) = osr s"
  "tx_fifo (sampled p s) = tx_fifo s"
  "rx_fifo (sampled p s) = rx_fifo s"
  by (simp_all add: sampled_def Let_def pin_state_key pin_state_lt del: of_nat_add of_nat_mult)

lemma serviced_fields:
  "pc (serviced s) = sample_pins"
  "scratch_y (serviced s) = scratch_y s"
  "osr (serviced s) = isr s"
  "tx_fifo (serviced s) = tl (tx_fifo s)"
  "rx_fifo (serviced s) = (if request_pending s then rx_fifo s @ [scratch_y s] else rx_fifo s)"
  by (simp_all add: serviced_def request_pending_def split: list.splits)

lemma request_pending_sampled: "request_pending (sampled p s) = request_pending s"
  by (simp add: request_pending_def sampled_fields)

lemma no_stall: "length (tx_fifo s) + length (rx_fifo s) \<le> 4 \<Longrightarrow>
  request_pending s \<longrightarrow> length (rx_fifo s) < 4"
  by (cases "tx_fifo s") (auto simp: request_pending_def)

lemma stuck_never_arrives: "step p s = s \<Longrightarrow> pc s \<noteq> t \<Longrightarrow> run_to t n p s = None"
  by (induction n) simp_all

lemma run_to_None_mono: "run_to t m p s = None \<Longrightarrow> n \<le> m \<Longrightarrow> run_to t n p s = None"
  using run_to_mono[of t n p s _ m] by (cases "run_to t n p s") auto

lemma stalled_pass:
  assumes "pc s = update" "tx_fifo s = v # r" "v \<noteq> 0" "\<not> length (rx_fifo s) < 4"
  shows "run_to update n p s = None"
proof -
  let ?w = "s\<lparr>tx_fifo := r, scratch_x := v, osr := isr s, isr := scratch_y s, pc := 21\<rparr>"
  have stuck: "step p ?w = ?w" using assms(4) by (simp add: step_service)
  have w: "run_to 15 k p ?w = None" for k
    by (rule stuck_never_arrives[OF stuck]) simp
  have "run_to 15 (Suc (Suc (Suc (Suc (Suc (Suc n)))))) p s = run_to 15 n p ?w"
    using assms by (simp add: step_simps update_def)
  then have "run_to 15 (Suc (Suc (Suc (Suc (Suc (Suc n)))))) p s = None"
    by (simp add: w)
  then have "run_to 15 n p s = None"
    by (rule run_to_None_mono) simp
  then show ?thesis by (simp add: update_def)
qed

lemma sint_succ:
  assumes "sint (c :: 32 word) < 2 ^ 31 - 1"
  shows "sint (c + 1) = sint c + 1"
proof -
  have lo: "- (2 ^ 31) \<le> sint c" using sint_ge[of c] by simp
  have "sint (c + 1) = signed_take_bit 31 (sint c + 1)" by (simp add: sint_word_ariths)
  also have "\<dots> = sint c + 1"
    by (rule signed_take_bit_int_eq_self) (use assms lo in simp_all)
  finally show ?thesis .
qed

lemma sint_pred:
  assumes "- (2 ^ 31) < sint (c :: 32 word)"
  shows "sint (c - 1) = sint c - 1"
proof -
  have hi: "sint c < 2 ^ 31" using sint_lt[of c] by simp
  have "sint (c - 1) = signed_take_bit 31 (sint c - 1)" by (simp add: sint_word_ariths)
  also have "\<dots> = sint c - 1"
    by (rule signed_take_bit_int_eq_self) (use assms hi in simp_all)
  finally show ?thesis .
qed

lemma exec_rx_prefix: "\<exists>ys. rx_fifo (exec i p s) = rx_fifo s @ ys"
proof (cases i)
  case (Jmp c a)
  then show ?thesis by (cases c) (simp_all add: advance_def)
next
  case (Mov d f src)
  then show ?thesis by (cases d) (simp_all add: advance_def Let_def)
qed (simp_all add: advance_def split: list.splits)

lemma step_rx_prefix: "\<exists>ys. rx_fifo (step p s) = rx_fifo s @ ys"
  unfolding step_def by (rule exec_rx_prefix)

lemma cycles_rx_prefix: "\<exists>ys. rx_fifo (cycles ps s) = rx_fifo s @ ys"
proof (induction ps arbitrary: s)
  case Nil
  then show ?case by simp
next
  case (Cons p ps)
  obtain ys where ys: "rx_fifo (step p s) = rx_fifo s @ ys"
    using step_rx_prefix by blast
  obtain zs where "rx_fifo (cycles ps (step p s)) = rx_fifo (step p s) @ zs"
    using Cons.IH by blast
  with ys show ?case by simp
qed

lemma sm_get_nonempty: "rx_fifo s = v # r \<Longrightarrow> sm_get ps s = Some (v, ps, s\<lparr>rx_fifo := r\<rparr>)"
  by (cases ps) simp_all

lemma lt16_cases:
  "(k::nat) < 16 \<Longrightarrow> k = 0 \<or> k = 1 \<or> k = 2 \<or> k = 3 \<or> k = 4 \<or> k = 5 \<or> k = 6 \<or> k = 7
     \<or> k = 8 \<or> k = 9 \<or> k = 10 \<or> k = 11 \<or> k = 12 \<or> k = 13 \<or> k = 14 \<or> k = 15"
  by arith

lemma key_lt16:
  assumes "take_bit 2 w = (w::32 word)"
  shows "unat (push_bit 2 w OR take_bit 2 p) < 16"
proof -
  have w: "w = of_nat (pin_state w)" using assms by (simp add: take_bit_pin)
  have p: "take_bit 2 p = of_nat (pin_state p)" by (rule take_bit_pin)
  show ?thesis
    using lt4_cases[OF pin_state_lt[of w]] lt4_cases[OF pin_state_lt[of p]]
    by (subst w, subst p) auto
qed

lemma idle_step:
  assumes "idle s"
  shows "idle (step p s)"
proof -
  have rx: "rx_fifo s = []" and tx: "set (tx_fifo s) \<subseteq> {0}"
    using assms by (simp_all add: idle_def)
  consider "pc s < 16" | "pc s = 16" "scratch_x s = 0" | "pc s = 17" "osr s = 0"
    | "pc s = 18" "scratch_x s = 0" | "pc s = 19" "scratch_x s = 0" | "pc s = 22"
    | "pc s = 23" "isr s = 0" | "pc s = 24" "take_bit 2 (isr s) = isr s"
    | "pc s = 25" "unat (isr s) < 16" | "pc s = 26" | "pc s = 27" | "pc s = 28"
    using assms unfolding idle_def by blast
  then show ?thesis
  proof cases
    case 1
    from lt16_cases[OF this] show ?thesis
      using rx tx by (elim disjE) (simp_all add: step_simps idle_def)
  next
    case 2
    show ?thesis
    proof (cases "tx_fifo s")
      case Nil
      with 2 rx show ?thesis by (simp add: step_simps idle_def)
    next
      case (Cons v r)
      with tx have "v = 0" "set r \<subseteq> {0}" by auto
      with 2 rx Cons show ?thesis by (simp add: step_simps idle_def)
    qed
  next
    case 8
    have "unat (push_bit 2 (isr s) OR take_bit 2 p) < 16" by (rule key_lt16[OF 8(2)])
    with 8 rx tx show ?thesis by (simp add: step_simps idle_def)
  next
    case 9
    have "unat (take_bit 5 (isr s)) = take_bit 5 (unat (isr s))"
      by (rule unsigned_take_bit_eq)
    also have "\<dots> = unat (isr s)"
      by (rule take_bit_nat_eq_self) (use 9(2) in simp)
    finally have "unat (take_bit 5 (isr s)) < 16" using 9(2) by simp
    with 9 rx tx show ?thesis by (simp add: step_simps idle_def)
  qed (use rx tx in \<open>simp_all add: step_simps idle_def\<close>)
qed

lemma idle_sm_get: "idle s \<Longrightarrow> sm_get ps s = None"
proof (induction ps arbitrary: s)
  case Nil
  then show ?case by (simp add: idle_def)
next
  case (Cons p ps)
  from Cons.prems have "rx_fifo s = []" by (simp add: idle_def)
  moreover have "sm_get ps (step p s) = None"
    by (rule Cons.IH) (rule idle_step[OF Cons.prems])
  ultimately show ?case by simp
qed

lemma get_returns_count:
  assumes "pc s = update" "tx_fifo s = []" "rx_fifo s = []"
  shows "\<exists>t. PIOQEI_get (p1 # p2 # p3 # p4 # p5 # p6 # p7 # rest) s = Some (scratch_y s, rest, t)
           \<and> pc t = sample_pins \<and> scratch_y t = scratch_y s
           \<and> tx_fifo t = [] \<and> rx_fifo t = []"
  using assms by (simp add: PIOQEI_get_def step_simps labels sm_get_nonempty)

lemma sm_get_None_prefix: "sm_get (ps @ qs) s = None \<Longrightarrow> sm_get ps s = None"
proof (induction ps arbitrary: s)
  case Nil
  then show ?case by (cases qs; cases "rx_fifo s") simp_all
next
  case (Cons p ps)
  then show ?case by (cases "rx_fifo s") simp_all
qed

lemma length_six: "length xs = 6 \<Longrightarrow> \<exists>a b c d e f. xs = [a, b, c, d, e, f]"
  by (auto simp: length_Suc_conv eval_nat_numeral)

lemma get_not_before:
  assumes "pc s = update" "tx_fifo s = []" "rx_fifo s = []" "length ps < 7"
  shows "PIOQEI_get ps s = None"
proof -
  let ?s1 = "s\<lparr>tx_fifo := [1]\<rparr>"
  let ?qs = "ps @ replicate (6 - length ps) 0"
  have "length ?qs = 6" using assms(4) by simp
  then obtain a b c d e f where qs: "?qs = [a, b, c, d, e, f]"
    using length_six by blast
  have "sm_get ?qs ?s1 = None"
    unfolding qs using assms(1-3) by (simp add: step_simps labels)
  then have "sm_get ps ?s1 = None" by (rule sm_get_None_prefix)
  moreover have "sm_put 1 ps s = Some (ps, ?s1)"
    using assms(2) by (cases ps) simp_all
  ultimately show ?thesis by (simp add: PIOQEI_get_def)
qed








lemma sint_succ_wrap: "sint ((c :: 32 word) + 1) = sint c + 1 \<or> sint (c + 1) = sint c + 1 - 2 ^ 32"
proof (cases "sint c < 2 ^ 31 - 1")
  case True
  then show ?thesis by (simp add: sint_succ)
next
  case False
  with sint_lt[of c] have "sint c = 2 ^ 31 - 1" by simp
  then have "word_of_int (sint c) = (word_of_int (2 ^ 31 - 1) :: 32 word)" by simp
  then have c: "c = 2147483647" by simp
  show ?thesis unfolding c by simp
qed

lemma sint_pred_wrap: "sint ((c :: 32 word) - 1) = sint c - 1 \<or> sint (c - 1) = sint c - 1 + 2 ^ 32"
proof (cases "- (2 ^ 31) < sint c")
  case True
  then show ?thesis by (simp add: sint_pred)
next
  case False
  with sint_ge[of c] have "sint c = - (2 ^ 31)" by simp
  then have "word_of_int (sint c) = (word_of_int (- (2 ^ 31)) :: 32 word)" by simp
  then have c: "c = 2147483648" by simp
  show ?thesis unfolding c by simp
qed

lemma get_is_put_one_then_take:
  "length (tx_fifo s) < 4 \<Longrightarrow> PIOQEI_get ps s = sm_get ps (s\<lparr>tx_fifo := tx_fifo s @ [1]\<rparr>)"
  by (cases ps) (simp_all add: PIOQEI_get_def)

lemma request_cycles:
  assumes "pc s = update" "rx_fifo s = []"
  shows "rx_fifo (cycles [p1, p2, p3, p4, p5, p6, p7] (s\<lparr>tx_fifo := [1]\<rparr>)) = [scratch_y s]"
    "scratch_x (cycles [p1, p2, p3, p4, p5, p6, p7] (s\<lparr>tx_fifo := [1]\<rparr>)) = 1"
    "tx_fifo (cycles [p1, p2, p3, p4, p5, p6, p7] (s\<lparr>tx_fifo := [1]\<rparr>)) = []"
    "rx_fifo (cycles [p1, p2, p3, p4, p5, p6, p7] (s\<lparr>tx_fifo := [0]\<rparr>)) = []"
  using assms by (simp_all add: step_simps labels)

lemma get_returns_state:
  assumes "pc s = update" "tx_fifo s = []" "rx_fifo s = []"
  shows "PIOQEI_get (p1 # p2 # p3 # p4 # p5 # p6 # p7 # rest) s =
     Some (scratch_y s, rest,
           (cycles [p1, p2, p3, p4, p5, p6, p7] (s\<lparr>tx_fifo := [1]\<rparr>))\<lparr>rx_fifo := []\<rparr>)"
  using assms by (simp add: PIOQEI_get_def step_simps labels sm_get_nonempty)

section \<open>The counter arithmetic\<close>

text \<open>
  Claim C9. The counter arithmetic is two's-complement arithmetic modulo \<open>2 ^ 32\<close>. The three
  instructions at \<open>increment\<close> (invert Y into X, decrement X, invert X into Y) leave Y + 1 in
  Y for every 32-bit Y, wrapping around, and arrive at \<open>update\<close>; they overwrite X. The
  instruction at \<open>decrement\<close>, \<^verbatim>\<open>jmp(y_dec, "update")\<close>, whose target is the next address,
  leaves Y - 1 in Y for every 32-bit Y, zero or not, goes to \<open>update\<close> in either case and
  changes nothing else.
\<close>

theorem counter_arithmetic_modular:
  "cycles [p1, p2, p3] (s\<lparr>pc := increment\<rparr>) =
     s\<lparr>scratch_x := NOT (scratch_y s) - 1, scratch_y := scratch_y s + 1, pc := update\<rparr>
   \<and> uint (scratch_y (cycles [p1, p2, p3] (s\<lparr>pc := increment\<rparr>))) = (uint (scratch_y s) + 1) mod 2 ^ 32
   \<and> step p (s\<lparr>pc := decrement\<rparr>) = s\<lparr>scratch_y := scratch_y s - 1, pc := update\<rparr>
   \<and> uint (scratch_y (step p (s\<lparr>pc := decrement\<rparr>))) = (uint (scratch_y s) - 1) mod 2 ^ 32"
proof -
  have inc: "cycles [p1, p2, p3] (s\<lparr>pc := increment\<rparr>) =
     s\<lparr>scratch_x := NOT (scratch_y s) - 1, scratch_y := scratch_y s + 1, pc := update\<rparr>"
    by (simp add: increment_def update_def step_action not_eq_complement)
  have dec: "step p (s\<lparr>pc := decrement\<rparr>) = s\<lparr>scratch_y := scratch_y s - 1, pc := update\<rparr>"
    by (simp add: decrement_def update_def step_action)
  have ui: "uint (scratch_y s + 1) = (uint (scratch_y s) + 1) mod 2 ^ 32"
    by (simp add: uint_word_ariths)
  have ud: "uint (scratch_y s - 1) = (uint (scratch_y s) - 1) mod 2 ^ 32"
    by (simp add: uint_word_ariths)
  show ?thesis
    unfolding inc dec using ui ud by simp
qed

section \<open>The decoding table\<close>

text \<open>
  Claim C1. For every sequence \<open>S\<close> of pin samples (of each, the two low bits are what
  the program reads), running the sampling loop on \<open>S\<close>, one pass per sample, ends with the
  Counter that the direct simulation against the specification's 16-entry table
  computes, from the same Counter and the same previous PinState (the two low bits of
  ISR; Counter 0 is the instance \<open>scratch_y s = 0\<close>). The run returns for every \<open>S\<close> when
  no push can stall, which holds when the two FIFOs together hold at most four words.
  With \<open>S = [p]\<close> this is the statement that the jump table at addresses 0 to 15 is the
  specification's table, key by key.
\<close>

theorem replay_matches_table_simulation:
  assumes "pc s = update" and "length (tx_fifo s) + length (rx_fifo s) \<le> 4"
  shows "\<exists>s'. replay S s = Some s' \<and>
           scratch_y s' = table_simulation (pin_state (isr s)) (map pin_state S) (scratch_y s)"
  using assms
proof (induction S arbitrary: s)
  case Nil
  then show ?case by simp
next
  case (Cons p S)
  let ?t = "sampled p (serviced s)"
  have pass: "loop_pass p s = Some ?t"
    using Cons.prems by (intro loop_pass_closed no_stall)
  have "pc ?t = update" by (simp add: sampled_fields)
  moreover have "length (tx_fifo ?t) + length (rx_fifo ?t) \<le> 4"
    using Cons.prems(2)
    by (cases "tx_fifo s") (auto simp: sampled_fields serviced_fields request_pending_def)
  ultimately obtain s' where s': "replay S ?t = Some s'"
      "scratch_y s' = table_simulation (pin_state (isr ?t)) (map pin_state S) (scratch_y ?t)"
    using Cons.IH by blast
  have "scratch_y s' = table_simulation (pin_state (isr s)) (map pin_state (p # S)) (scratch_y s)"
    using s'(2) by (simp add: sampled_fields serviced_fields)
  with s'(1) pass show ?case by simp
qed

theorem replay_matches_table_simulation_witness:
  "pc (step 0 PIOQEI_init) = update
   \<and> length (tx_fifo (step 0 PIOQEI_init)) + length (rx_fifo (step 0 PIOQEI_init)) \<le> 4
   \<and> (\<exists>s'. replay [2, 3, 1] (step 0 PIOQEI_init) = Some s'
          \<and> scratch_y s' = table_simulation 0 [2, 3, 1] 0)"
  using replay_matches_table_simulation[of "step 0 PIOQEI_init" "[2, 3, 1]"]
  by (simp add: PIOQEI_init_def step_jump update_def pin_state_def)

text \<open>
  Claim C5. For every Counter value, a pass of the loop whose (previous, current) pair is
  one of the invalid transitions 00 to 11, 11 to 00, 01 to 10, 10 to 01, or whose sample
  equals the previous one, returns and leaves the Counter as it was.
\<close>

theorem invalid_and_unchanged_pairs_keep_counter:
  assumes "pc s = update" and "request_pending s \<longrightarrow> length (rx_fifo s) < 4"
    and "(pin_state (isr s), pin_state p) \<in> {(0, 3), (3, 0), (1, 2), (2, 1)}
         \<or> pin_state (isr s) = pin_state p"
  shows "\<exists>s'. loop_pass p s = Some s' \<and> scratch_y s' = scratch_y s"
proof -
  have "TransitionTable (pin_state (isr s)) (pin_state p) = NoOp"
    using assms(3) by (auto simp: TransitionTable_def)
  then have "scratch_y (sampled p (serviced s)) = scratch_y s"
    by (simp add: sampled_fields serviced_fields)
  with loop_pass_closed[OF assms(1,2)] show ?thesis by simp
qed

theorem invalid_and_unchanged_pairs_keep_counter_witness:
  "(\<exists>s'. loop_pass 3 (step 0 PIOQEI_init) = Some s' \<and> scratch_y s' = 0)"
  using invalid_and_unchanged_pairs_keep_counter[of "step 0 PIOQEI_init" 3]
  by (simp add: PIOQEI_init_def step_jump update_def pin_state_def request_pending_def)

section \<open>The size of one step\<close>

text \<open>
  Claim C6, as the program has it. The claim says that no pass changes the Counter by
  more than 1 in absolute value. The Counter is a 32-bit register that wraps around:
  from \<open>2 ^ 31 - 1\<close>, which the decoder reaches by counting, a pass that increments leaves
  \<open>- (2 ^ 31)\<close>, and the signed Counter has moved by \<open>2 ^ 32 - 1\<close>.
\<close>

theorem counter_wraps_counterexample:
  "map_option (\<lambda>t. sint (scratch_y t) - sint (scratch_y ((step 0 PIOQEI_init)\<lparr>scratch_y := 2147483647\<rparr>)))
     (loop_pass 2 ((step 0 PIOQEI_init)\<lparr>scratch_y := 2147483647\<rparr>)) = Some (- 4294967295)"
  by (simp add: PIOQEI_init_def loop_pass_def run_to_numeral step_simps labels Let_def)

text \<open>
  Claim C6, amended. From every state at the head of the loop, whatever the registers
  hold, a pass of the loop returns (unless the push stalls on a full RX FIFO) and leaves
  in the Counter its old value, that minus 1 or that plus 1 modulo \<open>2 ^ 32\<close>. Read as a
  signed integer the Counter moves by at most 1, except at the wrap-around between
  \<open>2 ^ 31 - 1\<close> and \<open>- (2 ^ 31)\<close>, where it moves by \<open>2 ^ 32 - 1\<close>.
\<close>

theorem counter_changes_by_one_modulo:
  assumes "pc s = update" and "request_pending s \<longrightarrow> length (rx_fifo s) < 4"
  shows "\<exists>s'. loop_pass p s = Some s' \<and>
           (scratch_y s' = scratch_y s - 1 \<or> scratch_y s' = scratch_y s
            \<or> scratch_y s' = scratch_y s + 1) \<and>
           (\<bar>sint (scratch_y s') - sint (scratch_y s)\<bar> \<le> 1
            \<or> \<bar>sint (scratch_y s') - sint (scratch_y s)\<bar> = 2 ^ 32 - 1) \<and>
           (- (2 ^ 31) < sint (scratch_y s) \<and> sint (scratch_y s) < 2 ^ 31 - 1 \<longrightarrow>
              \<bar>sint (scratch_y s') - sint (scratch_y s)\<bar> \<le> 1)"
proof -
  let ?t = "sampled p (serviced s)"
  let ?a = "TransitionTable (pin_state (isr s)) (pin_state p)"
  have y: "scratch_y ?t = apply_action ?a (scratch_y s)"
    by (simp add: sampled_fields serviced_fields)
  have w: "scratch_y ?t = scratch_y s - 1 \<or> scratch_y ?t = scratch_y s
            \<or> scratch_y ?t = scratch_y s + 1"
    unfolding y by (cases ?a) simp_all
  have i: "\<bar>sint (scratch_y ?t) - sint (scratch_y s)\<bar> \<le> 1"
    if "- (2 ^ 31) < sint (scratch_y s)" "sint (scratch_y s) < 2 ^ 31 - 1"
    unfolding y using that by (cases ?a) (simp_all add: sint_succ sint_pred)
  have j: "\<bar>sint (scratch_y ?t) - sint (scratch_y s)\<bar> \<le> 1
            \<or> \<bar>sint (scratch_y ?t) - sint (scratch_y s)\<bar> = 2 ^ 32 - 1"
    unfolding y using sint_succ_wrap[of "scratch_y s"] sint_pred_wrap[of "scratch_y s"]
    by (cases ?a) auto
  from loop_pass_closed[OF assms] w i j show ?thesis by simp
qed

theorem counter_changes_by_one_modulo_witness:
  "\<exists>s'. loop_pass 2 ((step 0 PIOQEI_init)\<lparr>scratch_y := 2147483647\<rparr>) = Some s' \<and>
         scratch_y s' = 2147483647 + 1 \<and>
         \<bar>sint (scratch_y s') - sint (2147483647 :: 32 word)\<bar> = 2 ^ 32 - 1"
proof -
  have e: "step 0 PIOQEI_init = PIOQEI_init\<lparr>pc := 15\<rparr>"
    by (simp add: step_jump PIOQEI_init_def)
  have h: "pc ((step 0 PIOQEI_init)\<lparr>scratch_y := 2147483647\<rparr>) = update"
    "request_pending ((step 0 PIOQEI_init)\<lparr>scratch_y := 2147483647\<rparr>)
       \<longrightarrow> length (rx_fifo ((step 0 PIOQEI_init)\<lparr>scratch_y := 2147483647\<rparr>)) < 4"
    unfolding e by (simp_all add: update_def PIOQEI_init_def request_pending_def)
  have v: "map_option scratch_y (loop_pass 2 ((step 0 PIOQEI_init)\<lparr>scratch_y := 2147483647\<rparr>))
             = Some 2147483648"
    by (simp add: PIOQEI_init_def loop_pass_def run_to_numeral step_simps labels Let_def)
  from counter_changes_by_one_modulo[OF h, of 2] v show ?thesis
    by auto
qed

section \<open>The first iteration\<close>

text \<open>
  Claim C2, as the program has it. The claim says that the first sampling iteration after
  initialisation never changes the Counter, the previous PinState being seeded from the
  first sample. The program has no seeding: initialisation leaves 0 in ISR, so the first
  sample is paired with the previous PinState 00. With the pins at 01 the first
  iteration decrements the Counter.
\<close>

theorem first_iteration_counts_counterexample:
  "map_option scratch_y (first_iteration 1 PIOQEI_init) = Some (scratch_y PIOQEI_init - 1)
   \<and> scratch_y PIOQEI_init - 1 \<noteq> scratch_y PIOQEI_init"
  by (simp add: first_iteration_def loop_pass_def PIOQEI_init_def run_to_numeral step_simps labels Let_def)

text \<open>
  Claim C2, amended. The first sampling iteration after initialisation (program counter
  at address 0, ISR cleared) applies the table action for the pair (00, first sample)
  and stores the first sample as the previous PinState; it leaves the Counter unchanged
  exactly when the first sample is 00 or 11.
\<close>

theorem first_iteration_pairs_sample_with_00:
  assumes "pc s = 0" and "isr s = 0" and "request_pending s \<longrightarrow> length (rx_fifo s) < 4"
  shows "\<exists>s'. first_iteration p s = Some s' \<and>
           scratch_y s' = apply_action (TransitionTable 0 (pin_state p)) (scratch_y s) \<and>
           pin_state (isr s') = pin_state p \<and>
           (scratch_y s' = scratch_y s \<longleftrightarrow> pin_state p = 0 \<or> pin_state p = 3)"
proof -
  let ?e = "step p s"
  have e: "?e = s\<lparr>pc := 15\<rparr>" using assms(1) by (simp add: step_jump)
  have e1: "pc ?e = update" by (simp add: e update_def)
  have e2: "request_pending ?e \<longrightarrow> length (rx_fifo ?e) < 4"
    using assms(3) by (simp add: e request_pending_def)
  let ?t = "sampled p (serviced ?e)"
  have pass: "first_iteration p s = Some ?t"
    unfolding first_iteration_def by (rule loop_pass_closed[OF e1 e2])
  have p0: "pin_state (isr ?e) = 0" by (simp add: e assms(2) pin_state_def)
  have y: "scratch_y ?t = apply_action (TransitionTable 0 (pin_state p)) (scratch_y s)"
    by (simp add: sampled_fields serviced_fields p0) (simp add: e)
  have b: "pin_state (isr ?t) = pin_state p" by (simp add: sampled_fields)
  have iff: "scratch_y ?t = scratch_y s \<longleftrightarrow> pin_state p = 0 \<or> pin_state p = 3"
    unfolding y using lt4_cases[OF pin_state_lt[of p]]
    by (auto simp: TransitionTable_def)
  from pass y b iff show ?thesis by simp
qed

theorem first_iteration_pairs_sample_with_00_witness:
  "\<exists>s'. first_iteration 2 PIOQEI_init = Some s' \<and>
         scratch_y s' = apply_action (TransitionTable 0 2) 0 \<and>
         pin_state (isr s') = 2 \<and> scratch_y s' \<noteq> 0"
  using first_iteration_pairs_sample_with_00[of PIOQEI_init 2]
  by (simp add: PIOQEI_init_def request_pending_def pin_state_def TransitionTable_def)

section \<open>One full rotation\<close>

text \<open>
  Claim C4, as the program has it. The claim says that the samples 00, 01, 11, 10, 00,
  replayed from Counter 0 after initialisation, leave +4 in the Counter. They do not.
\<close>

theorem forward_rotation_counterexample:
  "map_option (\<lambda>s. sint (scratch_y s)) (replay [0, 1, 3, 2, 0] (step 0 PIOQEI_init)) \<noteq> Some 4"
  by (simp add: PIOQEI_init_def loop_pass_def run_to_numeral step_simps labels Let_def)

text \<open>
  Claim C4, amended. The samples 00, 01, 11, 10, 00, replayed from Counter 0 after
  initialisation, leave -4 in the Counter: each of the four transitions 00 to 01, 01 to
  11, 11 to 10 and 10 to 00 is a Decrement entry of the table.
\<close>

theorem forward_rotation_counts_minus_four:
  "map_option (\<lambda>s. sint (scratch_y s)) (replay [0, 1, 3, 2, 0] (step 0 PIOQEI_init)) = Some (- 4)"
  by (simp add: PIOQEI_init_def loop_pass_def run_to_numeral step_simps labels Let_def)

section \<open>The blocking take\<close>

text \<open>
  Claim C8, as the program has it. The claim says that the consumer-side take never
  blocks and returns nothing when no value has been produced. \<^verbatim>\<open>PIOQEI.get\<close> takes with
  the blocking \<^verbatim>\<open>StateMachine.get\<close>: after initialisation, with no request written, the take
  has not returned at once nor after 16 cycles; and \<^verbatim>\<open>get\<close>, request and take, has not
  returned after 6 cycles of the decoder and returns the count 0 after 7.
\<close>

theorem take_blocks_counterexample:
  "sm_get [] (step 0 PIOQEI_init) = None
   \<and> sm_get [0, 0, 0, 0, 0, 0, 0, 0, 0, 0, 0, 0, 0, 0, 0, 0] (step 0 PIOQEI_init) = None
   \<and> PIOQEI_get [0, 0, 0, 0, 0, 0] (step 0 PIOQEI_init) = None
   \<and> map_option fst (PIOQEI_get [0, 0, 0, 0, 0, 0, 0] (step 0 PIOQEI_init)) = Some 0"
  by (simp add: PIOQEI_get_def PIOQEI_init_def step_simps labels)

text \<open>
  Claim C8, amended. \<^verbatim>\<open>PIOQEI.get\<close> writes the request itself and then waits for the count:
  called while the decoder is at the head of its loop with both FIFOs empty, it returns
  the Counter after seven cycles of the decoder and not before, and it returns a count,
  never nothing. A take without a request does not return, however long the decoder
  runs.
\<close>

theorem get_blocks_until_the_count_is_pushed:
  assumes "pc s = update" and "tx_fifo s = []" and "rx_fifo s = []"
  shows "(\<exists>t. PIOQEI_get (p1 # p2 # p3 # p4 # p5 # p6 # p7 # rest) s = Some (scratch_y s, rest, t))
         \<and> (\<forall>ps. length ps < 7 \<longrightarrow> PIOQEI_get ps s = None)
         \<and> (\<forall>ps. sm_get ps s = None)"
proof (intro conjI allI impI)
  show "\<exists>t. PIOQEI_get (p1 # p2 # p3 # p4 # p5 # p6 # p7 # rest) s = Some (scratch_y s, rest, t)"
    using get_returns_count[OF assms] by blast
next
  fix ps :: "32 word list"
  assume "length ps < 7"
  with assms show "PIOQEI_get ps s = None" by (rule get_not_before)
next
  fix ps
  have "idle s" using assms by (simp add: idle_def update_def)
  then show "sm_get ps s = None" by (rule idle_sm_get)
qed

theorem get_blocks_until_the_count_is_pushed_witness:
  "(\<exists>t. PIOQEI_get [0, 0, 0, 0, 0, 0, 0, 1] (step 0 PIOQEI_init) = Some (0, [1], t))
   \<and> PIOQEI_get [0, 0, 0] (step 0 PIOQEI_init) = None
   \<and> (\<forall>ps. sm_get ps (step 0 PIOQEI_init) = None)"
  using get_blocks_until_the_count_is_pushed[of "step 0 PIOQEI_init" 0 0 0 0 0 0 0 "[1]"]
  by (simp add: PIOQEI_init_def step_jump update_def)

section \<open>The hand-off through the FIFOs\<close>



section \<open>The order of service and sampling\<close>

text \<open>
  Claim C3, as the program has it. The claim says that a sampling iteration samples and
  counts first and serves a pending request last, so that the value taken includes the
  increment or decrement of the iteration that saw the request. The loop of the program
  starts at \<open>update\<close> with the check of the TX FIFO: the pass that sees the request pushes
  the Counter first and samples afterwards. After \<^verbatim>\<open>get()\<close> has written its request at
  the head of the loop, with the pins at 01, the pass pushes 0 and then decrements the
  Counter to -1.
\<close>

theorem request_served_before_sample_counterexample:
  "sm_put 1 [] (step 0 PIOQEI_init) = Some ([], (step 0 PIOQEI_init)\<lparr>tx_fifo := [1]\<rparr>)
   \<and> map_option (\<lambda>t. (rx_fifo t, scratch_y t))
        (loop_pass 1 ((step 0 PIOQEI_init)\<lparr>tx_fifo := [1]\<rparr>)) = Some ([0], - 1)"
  by (simp add: PIOQEI_init_def loop_pass_def run_to_numeral step_simps labels Let_def)

text \<open>
  Claim C3, amended. Every pass of the loop executes its steps in this order: it checks
  the TX FIFO and, when a request is pending, removes it and pushes the Counter; then it
  samples the pins, forms the key from the previous PinState and the sample, applies
  the table action to the Counter and keeps the sample as the previous PinState. The
  value pushed is the Counter as the pass found it, after the action of the pass before
  and without the increment or decrement of the pass that saw the request. It stays at
  the front of the RX FIFO through any number of further cycles, so it is the value the
  consumer takes, whatever the decoder has counted in between.
\<close>

theorem request_served_before_the_sample:
  assumes "pc s = update" and "request_pending s \<longrightarrow> length (rx_fifo s) < 4"
  shows "\<exists>s'. loop_pass p s = Some s' \<and> pc s' = update
           \<and> tx_fifo s' = tl (tx_fifo s)
           \<and> (length (tx_fifo s) \<le> 1 \<longrightarrow> \<not> request_pending s')
           \<and> rx_fifo s' = (if request_pending s then rx_fifo s @ [scratch_y s] else rx_fifo s)
           \<and> scratch_y s' =
               apply_action (TransitionTable (pin_state (isr s)) (pin_state p)) (scratch_y s)
           \<and> pin_state (isr s') = pin_state p
           \<and> (\<forall>qs. take (length (rx_fifo s')) (rx_fifo (cycles qs s')) = rx_fifo s')
           \<and> (request_pending s \<and> rx_fifo s = [] \<longrightarrow>
                (\<forall>qs ps. sm_get ps (cycles qs s') =
                   Some (scratch_y s, ps,
                         (cycles qs s')\<lparr>rx_fifo := tl (rx_fifo (cycles qs s'))\<rparr>)))"
proof -
  let ?t = "sampled p (serviced s)"
  have it: "loop_pass p s = Some ?t"
    by (rule loop_pass_closed[OF assms])
  have y: "scratch_y ?t =
      apply_action (TransitionTable (pin_state (isr s)) (pin_state p)) (scratch_y s)"
    by (simp add: serviced_fields sampled_fields)
  have tx: "tx_fifo ?t = tl (tx_fifo s)"
    by (simp add: serviced_fields sampled_fields)
  have cleared: "\<not> request_pending ?t" if "length (tx_fifo s) \<le> 1"
    using that tx by (cases "tx_fifo s") (simp_all add: request_pending_def)
  have rx: "rx_fifo ?t = (if request_pending s then rx_fifo s @ [scratch_y s] else rx_fifo s)"
    by (simp add: serviced_fields sampled_fields)
  have keep: "take (length (rx_fifo ?t)) (rx_fifo (cycles qs ?t)) = rx_fifo ?t" for qs
    using cycles_rx_prefix[of qs ?t] by auto
  have taken: "sm_get ps (cycles qs ?t) =
      Some (scratch_y s, ps, (cycles qs ?t)\<lparr>rx_fifo := tl (rx_fifo (cycles qs ?t))\<rparr>)"
    if "request_pending s" "rx_fifo s = []" for qs ps
  proof -
    from rx that have "rx_fifo ?t = [scratch_y s]" by simp
    with cycles_rx_prefix[of qs ?t] obtain ys
      where "rx_fifo (cycles qs ?t) = scratch_y s # ys" by auto
    then show ?thesis by (simp add: sm_get_nonempty)
  qed
  show ?thesis
    using it y tx cleared rx keep taken
    by (intro exI[of _ ?t]) (simp add: sampled_fields)
qed

theorem request_served_before_the_sample_witness:
  "\<exists>s'. loop_pass 2 ((step 0 PIOQEI_init)\<lparr>tx_fifo := [1]\<rparr>) = Some s'
         \<and> tx_fifo s' = [] \<and> \<not> request_pending s'
         \<and> rx_fifo s' = [0] \<and> scratch_y s' = 1
         \<and> (\<forall>qs ps. sm_get ps (cycles qs s') =
                Some (0, ps, (cycles qs s')\<lparr>rx_fifo := tl (rx_fifo (cycles qs s'))\<rparr>))"
proof -
  have e: "step 0 PIOQEI_init = PIOQEI_init\<lparr>pc := 15\<rparr>"
    by (simp add: step_jump PIOQEI_init_def)
  have h: "pc ((step 0 PIOQEI_init)\<lparr>tx_fifo := [1]\<rparr>) = update"
    "request_pending ((step 0 PIOQEI_init)\<lparr>tx_fifo := [1]\<rparr>)
       \<longrightarrow> length (rx_fifo ((step 0 PIOQEI_init)\<lparr>tx_fifo := [1]\<rparr>)) < 4"
    unfolding e by (simp_all add: update_def PIOQEI_init_def)
  have f: "request_pending ((step 0 PIOQEI_init)\<lparr>tx_fifo := [1]\<rparr>)"
    "rx_fifo ((step 0 PIOQEI_init)\<lparr>tx_fifo := [1]\<rparr>) = []"
    "scratch_y ((step 0 PIOQEI_init)\<lparr>tx_fifo := [1]\<rparr>) = 0"
    "isr ((step 0 PIOQEI_init)\<lparr>tx_fifo := [1]\<rparr>) = 0"
    "tx_fifo ((step 0 PIOQEI_init)\<lparr>tx_fifo := [1]\<rparr>) = [1]"
    unfolding e by (simp_all add: PIOQEI_init_def request_pending_def)
  note w = request_served_before_the_sample[OF h, of 2, unfolded f]
  from w obtain s' where a: "loop_pass 2 ((step 0 PIOQEI_init)\<lparr>tx_fifo := [1]\<rparr>) = Some s'"
    and b: "tx_fifo s' = tl [1]"
    and c: "length [1 :: 32 word] \<le> 1 \<longrightarrow> \<not> request_pending s'"
    and d: "rx_fifo s' = (if request_pending ((step 0 PIOQEI_init)\<lparr>tx_fifo := [1]\<rparr>)
                          then [] @ [0] else [])"
    and y: "scratch_y s' = apply_action (TransitionTable (pin_state 0) (pin_state 2)) 0"
    and g: "request_pending ((step 0 PIOQEI_init)\<lparr>tx_fifo := [1]\<rparr>)
             \<and> ([] :: 32 word list) = [] \<longrightarrow>
             (\<forall>qs ps. sm_get ps (cycles qs s') =
                Some (0, ps, (cycles qs s')\<lparr>rx_fifo := tl (rx_fifo (cycles qs s'))\<rparr>))"
    by (elim exE conjE) (rule that, assumption+)
  from a b c d y g f(1) show ?thesis
    by (intro exI[of _ s']) (simp add: pin_state_def TransitionTable_def)
qed

section \<open>The request word\<close>

text \<open>
  Claim C10. A zero word in the TX FIFO is not a request: a pass of the loop that pulls
  0 ends in the state in which the pass without any word ends, but for the word it has
  removed, and pushes nothing, while a pass that pulls a nonzero word pushes the
  Counter. \<^verbatim>\<open>PIOQEI.get\<close> is the write of the word 1 followed by the blocking take: at the
  head of the loop with both FIFOs empty, seven cycles after the write the machine has
  pulled the 1 into X and pushed the Counter, and \<^verbatim>\<open>get\<close> returns it. After a write of 0
  the RX FIFO is still empty at that time, and the take never returns.
\<close>

theorem zero_word_is_no_request:
  assumes "pc s = update"
  shows "loop_pass p (s\<lparr>tx_fifo := 0 # r\<rparr>) =
           map_option (\<lambda>t. t\<lparr>tx_fifo := r\<rparr>) (loop_pass p (s\<lparr>tx_fifo := []\<rparr>))
         \<and> (\<exists>s'. loop_pass p (s\<lparr>tx_fifo := 0 # r\<rparr>) = Some s' \<and> rx_fifo s' = rx_fifo s)
         \<and> (v \<noteq> 0 \<and> length (rx_fifo s) < 4 \<longrightarrow>
              (\<exists>s'. loop_pass p (s\<lparr>tx_fifo := v # r\<rparr>) = Some s'
                     \<and> rx_fifo s' = rx_fifo s @ [scratch_y s]))
         \<and> (\<forall>ps. length (tx_fifo s) < 4 \<longrightarrow>
              PIOQEI_get ps s = sm_get ps (s\<lparr>tx_fifo := tx_fifo s @ [1]\<rparr>))
         \<and> (tx_fifo s = [] \<and> rx_fifo s = [] \<longrightarrow>
              (\<forall>ps. Option.bind (sm_put 0 ps s) (\<lambda>(ps', s'). sm_get ps' s') = None)
              \<and> (\<forall>p1 p2 p3 p4 p5 p6 p7 rest.
                    PIOQEI_get (p1 # p2 # p3 # p4 # p5 # p6 # p7 # rest) s =
                      Some (scratch_y s, rest,
                            (cycles [p1, p2, p3, p4, p5, p6, p7] (s\<lparr>tx_fifo := [1]\<rparr>))
                              \<lparr>rx_fifo := []\<rparr>)
                    \<and> rx_fifo (cycles [p1, p2, p3, p4, p5, p6, p7] (s\<lparr>tx_fifo := [1]\<rparr>))
                        = [scratch_y s]
                    \<and> scratch_x (cycles [p1, p2, p3, p4, p5, p6, p7] (s\<lparr>tx_fifo := [1]\<rparr>)) = 1
                    \<and> rx_fifo (cycles [p1, p2, p3, p4, p5, p6, p7] (s\<lparr>tx_fifo := [0]\<rparr>)) = []))"
proof (intro conjI impI allI)
  let ?z = "s\<lparr>tx_fifo := 0 # r\<rparr>" and ?e = "s\<lparr>tx_fifo := []\<rparr>"
  have z: "loop_pass p ?z = Some (sampled p (serviced ?z))"
    using assms by (intro loop_pass_closed) (simp_all add: request_pending_def)
  have e: "loop_pass p ?e = Some (sampled p (serviced ?e))"
    using assms by (intro loop_pass_closed) (simp_all add: request_pending_def)
  show "loop_pass p ?z = map_option (\<lambda>t. t\<lparr>tx_fifo := r\<rparr>) (loop_pass p ?e)"
    unfolding z e by (simp add: sampled_def serviced_def Let_def)
  show "\<exists>s'. loop_pass p ?z = Some s' \<and> rx_fifo s' = rx_fifo s"
    unfolding z by (simp add: sampled_fields serviced_fields request_pending_def)
next
  assume a: "v \<noteq> 0 \<and> length (rx_fifo s) < 4"
  let ?n = "s\<lparr>tx_fifo := v # r\<rparr>"
  have "loop_pass p ?n = Some (sampled p (serviced ?n))"
    using assms a by (intro loop_pass_closed) simp_all
  then show "\<exists>s'. loop_pass p ?n = Some s' \<and> rx_fifo s' = rx_fifo s @ [scratch_y s]"
    using a by (simp add: sampled_fields serviced_fields request_pending_def)
next
  fix ps
  assume "length (tx_fifo s) < 4"
  then show "PIOQEI_get ps s = sm_get ps (s\<lparr>tx_fifo := tx_fifo s @ [1]\<rparr>)"
    by (rule get_is_put_one_then_take)
next
  fix ps
  assume a: "tx_fifo s = [] \<and> rx_fifo s = []"
  have put: "sm_put 0 ps s = Some (ps, s\<lparr>tx_fifo := [0]\<rparr>)"
    using a by (cases ps) simp_all
  have "idle (s\<lparr>tx_fifo := [0]\<rparr>)" using a assms by (simp add: idle_def update_def)
  then have "sm_get ps (s\<lparr>tx_fifo := [0]\<rparr>) = None" by (rule idle_sm_get)
  with put show "Option.bind (sm_put 0 ps s) (\<lambda>(ps', s'). sm_get ps' s') = None" by simp
next
  fix p1 p2 p3 p4 p5 p6 p7 rest
  assume a: "tx_fifo s = [] \<and> rx_fifo s = []"
  then show "PIOQEI_get (p1 # p2 # p3 # p4 # p5 # p6 # p7 # rest) s =
      Some (scratch_y s, rest,
            (cycles [p1, p2, p3, p4, p5, p6, p7] (s\<lparr>tx_fifo := [1]\<rparr>))\<lparr>rx_fifo := []\<rparr>)"
    by (intro get_returns_state[OF assms]) simp_all
  from a show "rx_fifo (cycles [p1, p2, p3, p4, p5, p6, p7] (s\<lparr>tx_fifo := [1]\<rparr>)) = [scratch_y s]"
    by (intro request_cycles(1)[OF assms]) simp
  from a show "scratch_x (cycles [p1, p2, p3, p4, p5, p6, p7] (s\<lparr>tx_fifo := [1]\<rparr>)) = 1"
    by (intro request_cycles(2)[OF assms]) simp
  from a show "rx_fifo (cycles [p1, p2, p3, p4, p5, p6, p7] (s\<lparr>tx_fifo := [0]\<rparr>)) = []"
    by (intro request_cycles(4)[OF assms]) simp
qed

theorem zero_word_is_no_request_witness:
  "(\<exists>s'. loop_pass 2 ((step 0 PIOQEI_init)\<lparr>tx_fifo := [0]\<rparr>) = Some s' \<and> rx_fifo s' = [])
   \<and> (\<exists>s'. loop_pass 2 ((step 0 PIOQEI_init)\<lparr>tx_fifo := [5]\<rparr>) = Some s' \<and> rx_fifo s' = [0])
   \<and> (\<forall>ps. Option.bind (sm_put 0 ps (step 0 PIOQEI_init)) (\<lambda>(ps', s'). sm_get ps' s') = None)
   \<and> PIOQEI_get [0, 0, 0, 0, 0, 0, 0] (step 0 PIOQEI_init) =
       Some (0, [], (cycles [0, 0, 0, 0, 0, 0, 0] ((step 0 PIOQEI_init)\<lparr>tx_fifo := [1]\<rparr>))
                      \<lparr>rx_fifo := []\<rparr>)
   \<and> scratch_x (cycles [0, 0, 0, 0, 0, 0, 0] ((step 0 PIOQEI_init)\<lparr>tx_fifo := [1]\<rparr>)) = 1"
proof -
  have e: "step 0 PIOQEI_init = PIOQEI_init\<lparr>pc := 15\<rparr>"
    by (simp add: step_jump PIOQEI_init_def)
  have h: "pc (step 0 PIOQEI_init) = update" by (simp add: e update_def)
  have f: "tx_fifo (step 0 PIOQEI_init) = [] \<and> rx_fifo (step 0 PIOQEI_init) = []"
    "scratch_y (step 0 PIOQEI_init) = 0" "rx_fifo (step 0 PIOQEI_init) = []"
    unfolding e by (simp_all add: PIOQEI_init_def)
  note w = zero_word_is_no_request[OF h, where p = 2 and r = "[]" and v = 5]
  have B: "\<exists>s'. loop_pass 2 ((step 0 PIOQEI_init)\<lparr>tx_fifo := [0]\<rparr>) = Some s' \<and> rx_fifo s' = []"
    using w[THEN conjunct2, THEN conjunct1] f(3) by simp
  have C: "\<exists>s'. loop_pass 2 ((step 0 PIOQEI_init)\<lparr>tx_fifo := [5]\<rparr>) = Some s' \<and> rx_fifo s' = [0]"
    using w[THEN conjunct2, THEN conjunct2, THEN conjunct1] f(2,3) by simp
  note E = w[THEN conjunct2, THEN conjunct2, THEN conjunct2, THEN conjunct2, THEN mp, OF f(1)]
  have E1: "\<forall>ps. Option.bind (sm_put 0 ps (step 0 PIOQEI_init)) (\<lambda>(ps', s'). sm_get ps' s') = None"
    by (rule E[THEN conjunct1])
  note E2 = E[THEN conjunct2, rule_format, of 0 0 0 0 0 0 0 "[]"]
  have G: "PIOQEI_get [0, 0, 0, 0, 0, 0, 0] (step 0 PIOQEI_init) =
       Some (0, [], (cycles [0, 0, 0, 0, 0, 0, 0] ((step 0 PIOQEI_init)\<lparr>tx_fifo := [1]\<rparr>))
                      \<lparr>rx_fifo := []\<rparr>)"
    using E2[THEN conjunct1] unfolding f(2) .
  have X: "scratch_x (cycles [0, 0, 0, 0, 0, 0, 0] ((step 0 PIOQEI_init)\<lparr>tx_fifo := [1]\<rparr>)) = 1"
    by (rule E2[THEN conjunct2, THEN conjunct2, THEN conjunct1])
  from B C E1 G X show ?thesis by (intro conjI)
qed

end
